theory Spec2Isabelle
  imports Complex_Main "HOL-Library.Multiset"
begin

section \<open>Console Tetris: the game core of \<^verbatim>\<open>tetris_console.py\<close>\<close>

text \<open>
  The development embeds the classes \<^verbatim>\<open>Piece\<close> and \<^verbatim>\<open>Game\<close>. The curses
  screen and the drawing code are left out; every other attribute is a record field.
  Python exceptions are values: the only exception the core can raise is
  \<^verbatim>\<open>IndexError\<close>, from a list subscript out of range.
\<close>

subsection \<open>Constants and the shape catalogue\<close>

definition BOARD_WIDTH :: int where
  "BOARD_WIDTH = 10"

definition BOARD_HEIGHT :: int where
  "BOARD_HEIGHT = 20"

text \<open>The seven keys of the dictionary \<^verbatim>\<open>TETROMINOES\<close>.\<close>

datatype shape = Sh_I | Sh_J | Sh_L | Sh_O | Sh_S | Sh_T | Sh_Z

text \<open>\<^verbatim>\<open>TETROMINOES[shape]\<close>: the base orientation, rows of 0/1 integers.\<close>

fun TETROMINOES :: "shape \<Rightarrow> int list list" where
  "TETROMINOES Sh_I = [[0,0,0,0], [1,1,1,1], [0,0,0,0], [0,0,0,0]]"
| "TETROMINOES Sh_J = [[1,0,0], [1,1,1], [0,0,0]]"
| "TETROMINOES Sh_L = [[0,0,1], [1,1,1], [0,0,0]]"
| "TETROMINOES Sh_O = [[1,1], [1,1]]"
| "TETROMINOES Sh_S = [[0,1,1], [1,1,0], [0,0,0]]"
| "TETROMINOES Sh_T = [[0,1,0], [1,1,1], [0,0,0]]"
| "TETROMINOES Sh_Z = [[1,1,0], [0,1,1], [0,0,0]]"

text \<open>\<^verbatim>\<open>list(TETROMINOES.keys())\<close>: the keys in insertion order.\<close>

definition TETROMINOES_keys :: "shape list" where
  "TETROMINOES_keys = [Sh_I, Sh_J, Sh_L, Sh_O, Sh_S, Sh_T, Sh_Z]"

subsection \<open>Exceptions and subscripts\<close>

datatype error = IndexError

text \<open>\<^verbatim>\<open>xs[i]\<close> for an index that is not negative.\<close>

definition subscript :: "'a list \<Rightarrow> nat \<Rightarrow> error + 'a" where
  "subscript xs i = (if i < length xs then Inr (xs ! i) else Inl IndexError)"

text \<open>\<^verbatim>\<open>m[r][c]\<close>: the row is read first, then the column.\<close>

definition subscript2 :: "'a list list \<Rightarrow> nat \<Rightarrow> nat \<Rightarrow> error + 'a" where
  "subscript2 m r c =
     (case subscript m r of
        Inl e \<Rightarrow> Inl e
      | Inr row \<Rightarrow> subscript row c)"

text \<open>Sequencing: an exception raised by the first call ends the whole computation.\<close>

definition and_then :: "error + 'a \<Rightarrow> ('a \<Rightarrow> error + 'b) \<Rightarrow> error + 'b" where
  "and_then m f = (case m of Inl e \<Rightarrow> Inl e | Inr v \<Rightarrow> f v)"

subsection \<open>Pieces\<close>

record piece =
  shape :: shape
  matrix :: "int list list"
  ph :: nat
  pw :: nat
  px :: int
  py :: int

text \<open>
  \<^verbatim>\<open>Piece.__init__\<close>. The catalogue has no empty matrix, so \<^verbatim>\<open>self.matrix[0]\<close>
  is always there.
\<close>

definition Piece :: "shape \<Rightarrow> piece" where
  "Piece s =
     (let m = TETROMINOES s;
          hh = length m;
          ww = length (hd m)
      in \<lparr> shape = s, matrix = m, ph = hh, pw = ww,
           px = (BOARD_WIDTH - int ww) div 2, py = 0 \<rparr>)"

text \<open>
  \<^verbatim>\<open>zip(*rows)\<close>: the columns of \<^verbatim>\<open>rows\<close>, cut at the shortest row; no rows give
  no columns.
\<close>

fun zip_star :: "'a list list \<Rightarrow> 'a list list" where
  "zip_star [] = []"
| "zip_star [r] = map (\<lambda>a. [a]) r"
| "zip_star (r # rs) = map (\<lambda>(a, col). a # col) (zip r (zip_star rs))"

text \<open>
  The tail of both rotations: \<^verbatim>\<open>self.h = len(self.matrix)\<close>, then
  \<^verbatim>\<open>self.w = len(self.matrix[0])\<close>, which raises on an empty matrix.
\<close>

definition set_matrix :: "piece \<Rightarrow> int list list \<Rightarrow> error + piece" where
  "set_matrix p m =
     (case subscript m 0 of
        Inl e \<Rightarrow> Inl e
      | Inr row0 \<Rightarrow> Inr (p\<lparr>matrix := m, ph := length m, pw := length row0\<rparr>))"

text \<open>\<^verbatim>\<open>Piece.rotate\<close>: the columns of the matrix with its rows reversed.\<close>

definition rotate_cw :: "piece \<Rightarrow> error + piece" where
  "rotate_cw p = set_matrix p (zip_star (rev (matrix p)))"

text \<open>\<^verbatim>\<open>Piece.rotate_ccw\<close>: the columns of the matrix, in reverse order.\<close>

definition rotate_ccw :: "piece \<Rightarrow> error + piece" where
  "rotate_ccw p = set_matrix p (rev (zip_star (matrix p)))"

text \<open>
  A piece as the program builds it: a rectangular matrix with at least one row and one
  column, and \<open>ph\<close>, \<open>pw\<close> holding its dimensions.
\<close>

definition rectangular :: "'a list list \<Rightarrow> nat \<Rightarrow> bool" where
  "rectangular m n = list_all (\<lambda>row. length row = n) m"

definition wf_piece :: "piece \<Rightarrow> bool" where
  "wf_piece p \<longleftrightarrow>
     ph p = length (matrix p) \<and> 0 < ph p \<and> 0 < pw p \<and> rectangular (matrix p) (pw p)"

subsection \<open>The game state\<close>

text \<open>A board cell is the integer 0 (\<open>None\<close>) or the shape that was locked there.\<close>

type_synonym cell = "shape option"

type_synonym board = "cell list list"

record game =
  board :: board
  score :: int
  lines :: int
  level :: int
  drop_delay :: real
  bag :: "shape list"
  current :: piece
  nxt :: piece
  game_over :: bool
  paused :: bool
  last_drop :: real

text \<open>
  The field \<open>nxt\<close> is \<^verbatim>\<open>self.next\<close>. The floats \<^verbatim>\<open>drop_delay\<close> and
  \<^verbatim>\<open>last_drop\<close> are held as exact reals: rounding is not modelled.

  \<^verbatim>\<open>random.shuffle\<close> is a parameter \<open>shuffle\<close> of every operation that may refill the
  bag: the function from the list it is given to the list it leaves. A shuffle leaves a
  permutation of the catalogue's keys.
\<close>

definition is_shuffle :: "(shape list \<Rightarrow> shape list) \<Rightarrow> bool" where
  "is_shuffle shuffle \<longleftrightarrow> mset (shuffle TETROMINOES_keys) = mset TETROMINOES_keys"

text \<open>\<^verbatim>\<open>xs.pop()\<close>: the last item and the list without it; raises on an empty list.\<close>

definition pop :: "'a list \<Rightarrow> error + ('a \<times> 'a list)" where
  "pop xs = (if xs = [] then Inl IndexError else Inr (last xs, butlast xs))"

text \<open>
  \<^verbatim>\<open>Game.next_piece\<close> reads and writes \<^verbatim>\<open>self.bag\<close> only: it takes the bag and
  returns the new piece with the bag that is left.
\<close>

definition next_piece :: "(shape list \<Rightarrow> shape list) \<Rightarrow> shape list \<Rightarrow> error + (piece \<times> shape list)" where
  "next_piece shuffle bg =
     (let bg1 = (if bg = [] then shuffle TETROMINOES_keys else bg)
      in case pop bg1 of
           Inl e \<Rightarrow> Inl e
         | Inr (s, bg2) \<Rightarrow> Inr (Piece s, bg2))"

text \<open>\<^verbatim>\<open>Game.__init__\<close>; \<open>now\<close> is what \<^verbatim>\<open>time.time()\<close> returns.\<close>

definition Game :: "(shape list \<Rightarrow> shape list) \<Rightarrow> real \<Rightarrow> error + game" where
  "Game shuffle now =
     (case next_piece shuffle [] of
        Inl e \<Rightarrow> Inl e
      | Inr (cur, bg1) \<Rightarrow>
          (case next_piece shuffle bg1 of
             Inl e \<Rightarrow> Inl e
           | Inr (nx, bg2) \<Rightarrow>
               Inr \<lparr> board = replicate (nat BOARD_HEIGHT) (replicate (nat BOARD_WIDTH) None),
                     score = 0, lines = 0, level = 1, drop_delay = 1.0, bag = bg2,
                     current = cur, nxt = nx, game_over = False, paused = False,
                     last_drop = now \<rparr>))"

text \<open>
  The pairs \<open>(r, c)\<close> that \<^verbatim>\<open>for r in range(h): for c in range(w):\<close> visits, in
  the order it visits them.
\<close>

definition range2 :: "nat \<Rightarrow> nat \<Rightarrow> (nat \<times> nat) list" where
  "range2 hh ww = concat (map (\<lambda>r. map (\<lambda>c. (r, c)) [0..<ww]) [0..<hh])"

text \<open>The body of the double loop of \<^verbatim>\<open>Game.valid\<close>, over the pairs still to visit.\<close>

fun valid_cells :: "board \<Rightarrow> int list list \<Rightarrow> int \<Rightarrow> int \<Rightarrow> (nat \<times> nat) list \<Rightarrow> error + bool" where
  "valid_cells b m x0 y0 [] = Inr True"
| "valid_cells b m x0 y0 ((r, c) # rest) =
     (case subscript2 m r c of
        Inl e \<Rightarrow> Inl e
      | Inr v \<Rightarrow>
          if v \<noteq> 0 then
            (let bx = x0 + int c; by = y0 + int r
             in if bx < 0 \<or> bx \<ge> BOARD_WIDTH \<or> by < 0 \<or> by \<ge> BOARD_HEIGHT then Inr False
                else (case subscript2 b (nat by) (nat bx) of
                        Inl e \<Rightarrow> Inl e
                      | Inr cl \<Rightarrow>
                          if cl \<noteq> None then Inr False
                          else valid_cells b m x0 y0 rest))
          else valid_cells b m x0 y0 rest)"

text \<open>\<^verbatim>\<open>Game.valid(piece, nx, ny)\<close>; \<open>None\<close> is the default of \<open>nx\<close> and \<open>ny\<close>.\<close>

definition valid :: "game \<Rightarrow> piece \<Rightarrow> int option \<Rightarrow> int option \<Rightarrow> error + bool" where
  "valid g p nx ny =
     (let x0 = (case nx of None \<Rightarrow> px p | Some v \<Rightarrow> v);
          y0 = (case ny of None \<Rightarrow> py p | Some v \<Rightarrow> v)
      in valid_cells (board g) (matrix p) x0 y0 (range2 (ph p) (pw p)))"

text \<open>\<^verbatim>\<open>b[r][c] = v\<close> for indices that are not negative.\<close>

definition store2 :: "'a list list \<Rightarrow> nat \<Rightarrow> nat \<Rightarrow> 'a \<Rightarrow> error + 'a list list" where
  "store2 b r c v =
     (case subscript b r of
        Inl e \<Rightarrow> Inl e
      | Inr row \<Rightarrow>
          if c < length row then Inr (b[r := row[c := v]]) else Inl IndexError)"

text \<open>The double loop of \<^verbatim>\<open>Game.lock_piece\<close>, over the pairs still to visit.\<close>

fun lock_cells :: "piece \<Rightarrow> (nat \<times> nat) list \<Rightarrow> board \<Rightarrow> error + board" where
  "lock_cells p [] b = Inr b"
| "lock_cells p ((r, c) # rest) b =
     (case subscript2 (matrix p) r c of
        Inl e \<Rightarrow> Inl e
      | Inr v \<Rightarrow>
          if v \<noteq> 0 then
            (let bx = px p + int c; by = py p + int r
             in if 0 \<le> by \<and> by < BOARD_HEIGHT \<and> 0 \<le> bx \<and> bx < BOARD_WIDTH then
                  (case store2 b (nat by) (nat bx) (Some (shape p)) of
                     Inl e \<Rightarrow> Inl e
                   | Inr b' \<Rightarrow> lock_cells p rest b')
                else lock_cells p rest b)
          else lock_cells p rest b)"

text \<open>
  \<^verbatim>\<open>Game.clear_lines\<close>. \<open>cleared\<close> is an integer as in the source; the loop
  \<^verbatim>\<open>for _ in range(cleared)\<close> inserts a fresh empty row at the front each time.
\<close>

definition clear_lines :: "game \<Rightarrow> game" where
  "clear_lines g =
     (let new_board = filter (\<lambda>row. list_ex (\<lambda>cl. cl = None) row) (board g);
          cleared = BOARD_HEIGHT - int (length new_board)
      in if cleared \<noteq> 0 then
           (let new_board' = ((\<lambda>nb. replicate (nat BOARD_WIDTH) None # nb) ^^ nat cleared) new_board;
                g1 = g\<lparr>board := new_board'\<rparr>;
                g2 = g1\<lparr>lines := lines g1 + cleared\<rparr>;
                g3 = g2\<lparr>score := score g2 + (cleared * 100) * level g2\<rparr>;
                g4 = g3\<lparr>level := 1 + lines g3 div 10\<rparr>
            in g4\<lparr>drop_delay := max 0.05 (1.0 - real_of_int (level g4 - 1) * 0.05)\<rparr>)
         else g)"

text \<open>\<^verbatim>\<open>Game.lock_piece\<close>.\<close>

definition lock_piece :: "(shape list \<Rightarrow> shape list) \<Rightarrow> piece \<Rightarrow> game \<Rightarrow> error + game" where
  "lock_piece shuffle p g =
     (case lock_cells p (range2 (ph p) (pw p)) (board g) of
        Inl e \<Rightarrow> Inl e
      | Inr b \<Rightarrow>
          (let g1 = clear_lines (g\<lparr>board := b\<rparr>);
               g2 = g1\<lparr>current := nxt g1\<rparr>
           in case next_piece shuffle (bag g2) of
                Inl e \<Rightarrow> Inl e
              | Inr (n, bg) \<Rightarrow>
                  (let g3 = g2\<lparr>bag := bg, nxt := n\<rparr>
                   in case valid g3 (current g3) None None of
                        Inl e \<Rightarrow> Inl e
                      | Inr ok \<Rightarrow> Inr (if \<not> ok then g3\<lparr>game_over := True\<rparr> else g3))))"

text \<open>One committed step down of \<^verbatim>\<open>hard_drop\<close>: \<^verbatim>\<open>y += 1\<close> and \<^verbatim>\<open>score += 2\<close>.\<close>

definition drop_one :: "game \<Rightarrow> game" where
  "drop_one g = g\<lparr>current := (current g)\<lparr>py := py (current g) + 1\<rparr>, score := score g + 2\<rparr>"

text \<open>
  The \<^verbatim>\<open>while\<close> loop of \<^verbatim>\<open>Game.hard_drop\<close>. The result is \<open>None\<close> when the loop
  never ends, \<open>Some (Inl e)\<close> when it raises and \<open>Some (Inr g)\<close> when it ends in state
  \<open>g\<close>.
\<close>

partial_function (option) hard_drop_loop :: "game \<Rightarrow> (error + game) option" where
  "hard_drop_loop g =
     (case valid g (current g) None (Some (py (current g) + 1)) of
        Inl e \<Rightarrow> Some (Inl e)
      | Inr ok \<Rightarrow> if ok then hard_drop_loop (drop_one g) else Some (Inr g))"

text \<open>\<^verbatim>\<open>Game.hard_drop\<close>.\<close>

definition hard_drop :: "(shape list \<Rightarrow> shape list) \<Rightarrow> game \<Rightarrow> (error + game) option" where
  "hard_drop shuffle g =
     (case hard_drop_loop g of
        None \<Rightarrow> None
      | Some (Inl e) \<Rightarrow> Some (Inl e)
      | Some (Inr g') \<Rightarrow> Some (lock_piece shuffle (current g') g'))"

text \<open>\<^verbatim>\<open>Game.step\<close>; \<open>now\<close> is what \<^verbatim>\<open>time.time()\<close> returns.\<close>

definition step :: "(shape list \<Rightarrow> shape list) \<Rightarrow> real \<Rightarrow> game \<Rightarrow> error + game" where
  "step shuffle now g =
     (if paused g \<or> game_over g then Inr g
      else if now - last_drop g \<ge> drop_delay g then
        (case valid g (current g) None (Some (py (current g) + 1)) of
           Inl e \<Rightarrow> Inl e
         | Inr ok \<Rightarrow>
             and_then
               (if ok then Inr (g\<lparr>current := (current g)\<lparr>py := py (current g) + 1\<rparr>\<rparr>)
                else lock_piece shuffle (current g) g)
               (\<lambda>g'. Inr (g'\<lparr>last_drop := now\<rparr>)))
      else Inr g)"

text \<open>
  The \<^verbatim>\<open>for dx in (0, -1, 1, -2, 2)\<close> loop of \<^verbatim>\<open>rotate_current\<close>, over the offsets
  still to try: \<open>Some g'\<close> when the loop body returned in state \<open>g'\<close>, \<open>None\<close> when the
  loop ran to its end.
\<close>

fun try_kicks :: "game \<Rightarrow> int list \<Rightarrow> error + game option" where
  "try_kicks g [] = Inr None"
| "try_kicks g (dx # rest) =
     (case valid g (current g) (Some (px (current g) + dx)) None of
        Inl e \<Rightarrow> Inl e
      | Inr ok \<Rightarrow>
          if ok then Inr (Some (g\<lparr>current := (current g)\<lparr>px := px (current g) + dx\<rparr>\<rparr>))
          else try_kicks g rest)"

text \<open>\<^verbatim>\<open>Game.rotate_current\<close>.\<close>

definition rotate_current :: "bool \<Rightarrow> game \<Rightarrow> error + game" where
  "rotate_current ccw g =
     (let old_matrix = matrix (current g);
          old_w = pw (current g);
          old_h = ph (current g)
      in case (if ccw then rotate_ccw (current g) else rotate_cw (current g)) of
           Inl e \<Rightarrow> Inl e
         | Inr p \<Rightarrow>
             (let g1 = g\<lparr>current := p\<rparr>
              in case try_kicks g1 [0, -1, 1, -2, 2] of
                   Inl e \<Rightarrow> Inl e
                 | Inr (Some g') \<Rightarrow> Inr g'
                 | Inr None \<Rightarrow>
                     Inr (g1\<lparr>current := (current g1)\<lparr>matrix := old_matrix, pw := old_w, ph := old_h\<rparr>\<rparr>)))"

text \<open>\<^verbatim>\<open>Game.move_current\<close>.\<close>

definition move_current :: "int \<Rightarrow> game \<Rightarrow> error + game" where
  "move_current dx g =
     (case valid g (current g) (Some (px (current g) + dx)) None of
        Inl e \<Rightarrow> Inl e
      | Inr ok \<Rightarrow>
          Inr (if ok then g\<lparr>current := (current g)\<lparr>px := px (current g) + dx\<rparr>\<rparr> else g))"

text \<open>\<^verbatim>\<open>Game.soft_drop\<close>.\<close>

definition soft_drop :: "(shape list \<Rightarrow> shape list) \<Rightarrow> game \<Rightarrow> error + game" where
  "soft_drop shuffle g =
     (case valid g (current g) None (Some (py (current g) + 1)) of
        Inl e \<Rightarrow> Inl e
      | Inr ok \<Rightarrow>
          if ok then
            Inr (g\<lparr>current := (current g)\<lparr>py := py (current g) + 1\<rparr>, score := score g + 1\<rparr>)
          else lock_piece shuffle (current g) g)"

text \<open>The key \<^verbatim>\<open>p\<close> of the main loop: \<^verbatim>\<open>game.paused = not game.paused\<close>.\<close>

definition toggle_pause :: "game \<Rightarrow> game" where
  "toggle_pause g = g\<lparr>paused := \<not> paused g\<rparr>"

text \<open>
  The states a game can be in: the state \<^verbatim>\<open>Game.__init__\<close> builds, and every state
  a call of one of the operations returns from such a state.
\<close>

inductive reachable :: "game \<Rightarrow> bool" where
  reach_init: "is_shuffle shuffle \<Longrightarrow> Game shuffle now = Inr g \<Longrightarrow> reachable g"
| reach_move: "reachable g \<Longrightarrow> move_current dx g = Inr g' \<Longrightarrow> reachable g'"
| reach_rotate: "reachable g \<Longrightarrow> rotate_current ccw g = Inr g' \<Longrightarrow> reachable g'"
| reach_soft: "reachable g \<Longrightarrow> is_shuffle shuffle \<Longrightarrow> soft_drop shuffle g = Inr g' \<Longrightarrow> reachable g'"
| reach_hard: "reachable g \<Longrightarrow> is_shuffle shuffle \<Longrightarrow> hard_drop shuffle g = Some (Inr g') \<Longrightarrow> reachable g'"
| reach_step: "reachable g \<Longrightarrow> is_shuffle shuffle \<Longrightarrow> step shuffle now g = Inr g' \<Longrightarrow> reachable g'"
| reach_pause: "reachable g \<Longrightarrow> reachable (toggle_pause g)"

text \<open>A board of \<^verbatim>\<open>BOARD_HEIGHT\<close> rows of \<^verbatim>\<open>BOARD_WIDTH\<close> cells.\<close>

definition wf_board :: "board \<Rightarrow> bool" where
  "wf_board b \<longleftrightarrow> int (length b) = BOARD_HEIGHT \<and> rectangular b (nat BOARD_WIDTH)"


subsection \<open>Notions the properties are stated with\<close>

text \<open>Cell \<open>(r, c)\<close> of the piece's matrix is occupied.\<close>

definition occupied :: "piece \<Rightarrow> nat \<Rightarrow> nat \<Rightarrow> bool" where
  "occupied p r c \<longleftrightarrow> r < ph p \<and> c < pw p \<and> matrix p ! r ! c \<noteq> 0"

text \<open>
  The board coordinate \<open>(bx, by)\<close> is outside the board or holds a locked cell.
\<close>

definition blocked :: "board \<Rightarrow> int \<Rightarrow> int \<Rightarrow> bool" where
  "blocked b bx by \<longleftrightarrow>
     bx < 0 \<or> BOARD_WIDTH \<le> bx \<or> by < 0 \<or> BOARD_HEIGHT \<le> by \<or> b ! nat by ! nat bx \<noteq> None"

text \<open>
  A state to evaluate the operations on: what \<^verbatim>\<open>Game.__init__\<close> builds at time 0
  when the shuffle leaves the keys in the catalogue's order.
\<close>

definition start_state :: game where
  "start_state =
     \<lparr> board = replicate 20 (replicate 10 None), score = 0, lines = 0, level = 1,
       drop_delay = 1, bag = [Sh_I, Sh_J, Sh_L, Sh_O, Sh_S], current = Piece Sh_Z,
       nxt = Piece Sh_T, game_over = False, paused = False, last_drop = 0 \<rparr>"


text \<open>A row is full when it contains no empty cell.\<close>

definition full_row :: "cell list \<Rightarrow> bool" where
  "full_row row \<longleftrightarrow> None \<notin> set row"

text \<open>A row of \<^verbatim>\<open>BOARD_WIDTH\<close> empty cells.\<close>

definition empty_row :: "cell list" where
  "empty_row = replicate (nat BOARD_WIDTH) None"



text \<open>The level and the drop interval agree with the number of cleared lines.\<close>

definition level_ok :: "game \<Rightarrow> bool" where
  "level_ok g \<longleftrightarrow>
     level g = 1 + lines g div 10 \<and>
     drop_delay g = max 0.05 (1.0 - real_of_int (level g - 1) * 0.05)"

text \<open>The invariant of the game: a board and two pieces of the right dimensions.\<close>

definition good :: "game \<Rightarrow> bool" where
  "good g \<longleftrightarrow> wf_board (board g) \<and> wf_piece (current g) \<and> wf_piece (nxt g) \<and> level_ok g"


text \<open>
  \<open>n\<close> consecutive calls of \<open>next_piece\<close>: the pieces returned, in order, and the bag
  that is left.
\<close>

fun draws :: "(shape list \<Rightarrow> shape list) \<Rightarrow> nat \<Rightarrow> shape list \<Rightarrow> error + (piece list \<times> shape list)" where
  "draws shuffle 0 bg = Inr ([], bg)"
| "draws shuffle (Suc n) bg =
     (case next_piece shuffle bg of
        Inl e \<Rightarrow> Inl e
      | Inr (p, bg1) \<Rightarrow>
          (case draws shuffle n bg1 of
             Inl e \<Rightarrow> Inl e
           | Inr (ps, bg2) \<Rightarrow> Inr (p # ps, bg2)))"

text \<open>The start state after the key \<^verbatim>\<open>p\<close>: the game is paused.\<close>

definition paused_state :: game where
  "paused_state = start_state\<lparr>paused := True\<rparr>"


text \<open>
  A state to evaluate \<open>rotate_current\<close> on: the upright I piece against the left wall
  of the empty board.
\<close>

definition kick_state :: game where
  "kick_state =
     start_state\<lparr>current := \<lparr> shape = Sh_I,
                               matrix = [[0,0,1,0], [0,0,1,0], [0,0,1,0], [0,0,1,0]],
                               ph = 4, pw = 4, px = -2, py = 0 \<rparr>\<rparr>"

section \<open>Rotation\<close>

lemma length_zip_star:
  "rectangular m n \<Longrightarrow> m \<noteq> [] \<Longrightarrow> length (zip_star m) = n"
  by (induction m rule: zip_star.induct) (auto simp: rectangular_def)

lemma nth_zip_star:
  "rectangular m n \<Longrightarrow> m \<noteq> [] \<Longrightarrow> i < n \<Longrightarrow> zip_star m ! i = map (\<lambda>row. row ! i) m"
proof (induction m rule: zip_star.induct)
  case 1
  then show ?case by simp
next
  case (2 r)
  then show ?case by (simp add: rectangular_def)
next
  case (3 r v va)
  have len: "length (zip_star (v # va)) = n"
    using "3.prems" by (intro length_zip_star) (auto simp: rectangular_def)
  have "zip_star (v # va) ! i = map (\<lambda>row. row ! i) (v # va)"
    using "3.prems" by (intro "3.IH") (auto simp: rectangular_def)
  then show ?case
    using "3.prems" len by (simp add: rectangular_def)
qed

lemma rectangular_zip_star:
  "rectangular m n \<Longrightarrow> m \<noteq> [] \<Longrightarrow> rectangular (zip_star m) (length m)"
proof -
  assume rect: "rectangular m n" and ne: "m \<noteq> []"
  have "length (zip_star m ! i) = length m" if "i < length (zip_star m)" for i
  proof -
    from that have "i < n"
      using length_zip_star [OF rect ne] by simp
    then show ?thesis
      by (simp add: nth_zip_star [OF rect ne])
  qed
  then show ?thesis
    by (simp add: rectangular_def list_all_length)
qed

lemma zip_star_involution:
  assumes "rectangular m n" and "m \<noteq> []" and "0 < n"
  shows "zip_star (zip_star m) = m"
proof (rule nth_equalityI)
  have ne: "zip_star m \<noteq> []"
    using assms length_zip_star [of m n] by auto
  have rect: "rectangular (zip_star m) (length m)"
    using assms by (simp add: rectangular_zip_star)
  show len: "length (zip_star (zip_star m)) = length m"
    using rect ne by (rule length_zip_star)
  fix i
  assume "i < length (zip_star (zip_star m))"
  then have i: "i < length m"
    using len by simp
  have row: "length (m ! i) = n"
    using assms(1) i by (simp add: rectangular_def list_all_length)
  have "zip_star (zip_star m) ! i = map (\<lambda>col. col ! i) (zip_star m)"
    using rect ne i by (rule nth_zip_star)
  also have "\<dots> = m ! i"
    using assms i row
    by (intro nth_equalityI) (simp_all add: length_zip_star nth_zip_star)
  finally show "zip_star (zip_star m) ! i = m ! i" .
qed

lemma rectangular_rev:
  "rectangular (rev m) n = rectangular m n"
  by (simp add: rectangular_def list_all_iff)

lemma set_matrix_Inr:
  "m \<noteq> [] \<Longrightarrow> set_matrix p m = Inr (p\<lparr>matrix := m, ph := length m, pw := length (m ! 0)\<rparr>)"
  by (simp add: set_matrix_def subscript_def)

lemma rotate_wf:
  assumes "wf_piece p"
  shows "rotate_cw p = Inr (p\<lparr>matrix := zip_star (rev (matrix p)), ph := pw p, pw := ph p\<rparr>)"
proof -
  let ?m = "rev (matrix p)"
  have rect: "rectangular ?m (pw p)" and ne: "?m \<noteq> []"
    using assms by (auto simp: wf_piece_def rectangular_rev)
  have len: "length (zip_star ?m) = pw p"
    using rect ne by (rule length_zip_star)
  have "length (zip_star ?m ! 0) = ph p"
    using assms by (simp add: nth_zip_star [OF rect ne] wf_piece_def)
  moreover have "zip_star ?m \<noteq> []"
    using len assms by (auto simp: wf_piece_def)
  ultimately show ?thesis
    using len by (simp add: rotate_cw_def set_matrix_Inr)
qed

lemma rotate_ccw_wf:
  assumes "wf_piece p"
  shows "rotate_ccw p = Inr (p\<lparr>matrix := rev (zip_star (matrix p)), ph := pw p, pw := ph p\<rparr>)"
proof -
  let ?m = "matrix p"
  have rect: "rectangular ?m (pw p)" and ne: "?m \<noteq> []"
    using assms by (auto simp: wf_piece_def)
  have len: "length (zip_star ?m) = pw p"
    using rect ne by (rule length_zip_star)
  have pos: "0 < pw p"
    using assms by (simp add: wf_piece_def)
  have "rev (zip_star ?m) ! 0 = zip_star ?m ! (pw p - 1)"
    using len pos by (simp add: rev_nth)
  then have "length (rev (zip_star ?m) ! 0) = ph p"
    using assms pos by (simp add: nth_zip_star [OF rect ne] wf_piece_def)
  moreover have "rev (zip_star ?m) \<noteq> []"
    using len pos by auto
  ultimately show ?thesis
    using len by (simp add: rotate_ccw_def set_matrix_Inr)
qed

lemma wf_piece_rotate:
  assumes "wf_piece p"
  shows "wf_piece (p\<lparr>matrix := zip_star (rev (matrix p)), ph := pw p, pw := ph p\<rparr>)"
proof -
  have rect: "rectangular (rev (matrix p)) (pw p)" and ne: "rev (matrix p) \<noteq> []"
    using assms by (auto simp: wf_piece_def rectangular_rev)
  show ?thesis
    using assms ne length_zip_star [OF rect ne] rectangular_zip_star [OF rect ne]
    by (simp add: wf_piece_def)
qed

lemma wf_piece_rotate_ccw:
  assumes "wf_piece p"
  shows "wf_piece (p\<lparr>matrix := rev (zip_star (matrix p)), ph := pw p, pw := ph p\<rparr>)"
proof -
  have rect: "rectangular (matrix p) (pw p)" and ne: "matrix p \<noteq> []"
    using assms by (auto simp: wf_piece_def)
  show ?thesis
    using assms ne length_zip_star [OF rect ne] rectangular_zip_star [OF rect ne]
    by (simp add: wf_piece_def rectangular_rev)
qed

text \<open>
  Claim C8. On a piece whose matrix is rectangular and not empty, a clockwise rotation
  followed by a counter-clockwise one raises nothing and gives back the piece as it was:
  the same matrix, the same height and the same width. The same holds for the
  counter-clockwise rotation followed by the clockwise one.
\<close>

theorem rotate_rotate_ccw_inverse:
  assumes "wf_piece p"
  shows "and_then (rotate_cw p) rotate_ccw = Inr p \<and> and_then (rotate_ccw p) rotate_cw = Inr p"
proof
  have rect: "rectangular (matrix p) (pw p)" and ne: "matrix p \<noteq> []" and pos: "0 < pw p"
    using assms by (auto simp: wf_piece_def)
  have dims: "ph p = length (matrix p)"
    using assms by (simp add: wf_piece_def)
  have "zip_star (zip_star (rev (matrix p))) = rev (matrix p)"
    using rect ne pos by (intro zip_star_involution [where n = "pw p"]) (auto simp: rectangular_rev)
  then show "and_then (rotate_cw p) rotate_ccw = Inr p"
    using rotate_wf [OF assms] rotate_ccw_wf [OF wf_piece_rotate [OF assms]]
    by (simp add: and_then_def)
  have "zip_star (zip_star (matrix p)) = matrix p"
    using rect ne pos by (rule zip_star_involution)
  then show "and_then (rotate_ccw p) rotate_cw = Inr p"
    using rotate_ccw_wf [OF assms] rotate_wf [OF wf_piece_rotate_ccw [OF assms]]
    by (simp add: and_then_def)
qed

theorem rotate_rotate_ccw_inverse_witness:
  "wf_piece (Piece Sh_T) \<and>
   and_then (rotate_cw (Piece Sh_T)) rotate_ccw = Inr (Piece Sh_T) \<and>
   and_then (rotate_ccw (Piece Sh_T)) rotate_cw = Inr (Piece Sh_T)"
proof -
  have wf: "wf_piece (Piece Sh_T)"
    by (simp add: wf_piece_def Piece_def rectangular_def)
  show ?thesis
    using wf rotate_rotate_ccw_inverse [OF wf] by simp
qed

section \<open>The validity check\<close>

lemma set_range2: "set (range2 hh ww) = {(r, c). r < hh \<and> c < ww}"
  by (auto simp: range2_def)

lemma subscript2_Inr:
  "r < length m \<Longrightarrow> c < length (m ! r) \<Longrightarrow> subscript2 m r c = Inr (m ! r ! c)"
  by (simp add: subscript2_def subscript_def)

lemma wf_board_subscript2:
  assumes "wf_board b" and "0 \<le> bx" and "bx < BOARD_WIDTH" and "0 \<le> by" and "by < BOARD_HEIGHT"
  shows "subscript2 b (nat by) (nat bx) = Inr (b ! nat by ! nat bx)"
proof -
  have r: "nat by < length b"
    using assms by (simp add: wf_board_def nat_less_iff)
  then have "length (b ! nat by) = nat BOARD_WIDTH"
    using assms(1) by (simp add: wf_board_def rectangular_def list_all_length)
  then have "nat bx < length (b ! nat by)"
    using assms by (simp add: nat_less_iff)
  with r show ?thesis
    by (rule subscript2_Inr)
qed

lemma wf_piece_inside:
  assumes "wf_piece p" and "(r, c) \<in> set (range2 (ph p) (pw p))"
  shows "r < length (matrix p) \<and> c < length (matrix p ! r)"
  using assms by (auto simp: set_range2 wf_piece_def rectangular_def list_all_length)

lemma valid_cells_iff:
  assumes "wf_board b"
    and "\<And>r c. (r, c) \<in> set cs \<Longrightarrow> r < length m \<and> c < length (m ! r)"
  shows "valid_cells b m x0 y0 cs =
         Inr (\<not> (\<exists>r c. (r, c) \<in> set cs \<and> m ! r ! c \<noteq> 0 \<and> blocked b (x0 + int c) (y0 + int r)))"
  using assms(2)
proof (induction cs)
  case Nil
  then show ?case by simp
next
  case (Cons rc cs)
  obtain r c where rc: "rc = (r, c)"
    by (cases rc)
  have sub: "subscript2 m r c = Inr (m ! r ! c)"
    using Cons.prems [of r c] rc by (simp add: subscript2_Inr)
  have IH: "valid_cells b m x0 y0 cs =
         Inr (\<not> (\<exists>r c. (r, c) \<in> set cs \<and> m ! r ! c \<noteq> 0 \<and> blocked b (x0 + int c) (y0 + int r)))"
    using Cons.prems by (intro Cons.IH) auto
  show ?case
  proof (cases "m ! r ! c \<noteq> 0")
    case False
    then show ?thesis
      using rc sub IH by auto
  next
    case occ: True
    show ?thesis
    proof (cases "blocked b (x0 + int c) (y0 + int r)")
      case True
      then have "valid_cells b m x0 y0 (rc # cs) = Inr False"
        using rc sub occ wf_board_subscript2 [OF assms(1), of "x0 + int c" "y0 + int r"]
        by (auto simp: blocked_def Let_def)
      then show ?thesis
        using rc occ True by auto
    next
      case False
      then have "valid_cells b m x0 y0 (rc # cs) = valid_cells b m x0 y0 cs"
        using rc sub occ wf_board_subscript2 [OF assms(1), of "x0 + int c" "y0 + int r"]
        by (auto simp: blocked_def Let_def)
      then show ?thesis
        using rc False IH by auto
    qed
  qed
qed

lemma valid_wf:
  assumes "wf_board (board g)" and "wf_piece p"
  shows "valid g p nx ny =
         Inr (\<not> (\<exists>r c. occupied p r c \<and>
                   blocked (board g) ((case nx of None \<Rightarrow> px p | Some v \<Rightarrow> v) + int c)
                                     ((case ny of None \<Rightarrow> py p | Some v \<Rightarrow> v) + int r)))"
proof -
  let ?x = "case nx of None \<Rightarrow> px p | Some v \<Rightarrow> v"
  let ?y = "case ny of None \<Rightarrow> py p | Some v \<Rightarrow> v"
  have "valid_cells (board g) (matrix p) ?x ?y (range2 (ph p) (pw p)) =
        Inr (\<not> (\<exists>r c. (r, c) \<in> set (range2 (ph p) (pw p)) \<and> matrix p ! r ! c \<noteq> 0 \<and>
                  blocked (board g) (?x + int c) (?y + int r)))"
    using assms(1) wf_piece_inside [OF assms(2)] by (rule valid_cells_iff)
  then show ?thesis
    by (simp add: valid_def set_range2 occupied_def Let_def)
qed

lemma wf_board_start_state: "wf_board (board start_state)"
  by (simp add: wf_board_def start_state_def rectangular_def list_all_iff BOARD_HEIGHT_def
      BOARD_WIDTH_def)

lemma wf_piece_Piece: "wf_piece (Piece s)"
  by (cases s) (simp_all add: wf_piece_def Piece_def rectangular_def)

text \<open>
  Claim C1. On a board of 20 rows of 10 cells and a piece whose matrix has the
  dimensions the piece records, the validity check raises nothing, and it returns false
  exactly when some occupied cell \<open>(r, c)\<close> of the matrix, placed at the position
  \<open>(x, y)\<close> (the piece's own coordinates unless overridden), has its board coordinate
  \<open>(x + c, y + r)\<close> outside the board or on a cell that is not empty; otherwise it
  returns true. The check returns a truth value only: the source assigns to no attribute
  of the game or of the piece, so the embedding has no state to return.
\<close>

theorem valid_iff_blocked:
  assumes "wf_board (board g)" and "wf_piece p"
  shows "valid g p nx ny =
         Inr (\<not> (\<exists>r c. occupied p r c \<and>
                   blocked (board g) ((case nx of None \<Rightarrow> px p | Some v \<Rightarrow> v) + int c)
                                     ((case ny of None \<Rightarrow> py p | Some v \<Rightarrow> v) + int r)))"
  using assms by (rule valid_wf)

theorem valid_iff_blocked_witness:
  "wf_board (board start_state) \<and> wf_piece (Piece Sh_O) \<and>
   valid start_state (Piece Sh_O) (Some 9) None = Inr False \<and>
   (\<exists>r c. occupied (Piece Sh_O) r c \<and> blocked (board start_state) (9 + int c) (py (Piece Sh_O) + int r))"
proof -
  have ev: "valid start_state (Piece Sh_O) (Some 9) None = Inr False"
    by (simp add: valid_def start_state_def Piece_def range2_def subscript2_def subscript_def
        BOARD_WIDTH_def BOARD_HEIGHT_def)
  show ?thesis
    using valid_iff_blocked [OF wf_board_start_state wf_piece_Piece, of Sh_O "Some 9" None] ev
    by (simp add: wf_board_start_state wf_piece_Piece)
qed

section \<open>Clearing lines\<close>

lemma funpow_Cons: "((\<lambda>nb. e # nb) ^^ n) nb = replicate n e @ nb"
  by (induction n) simp_all

lemma not_full_row: "list_ex (\<lambda>cl. cl = None) row = (\<not> full_row row)"
  by (auto simp: full_row_def list_ex_iff)

lemma length_filter_full:
  "length (filter (\<lambda>row. \<not> full_row row) b) + length (filter full_row b) = length b"
  using sum_length_filter_compl [of full_row b] by simp

lemma clear_lines_eq:
  assumes "int (length (board g)) = BOARD_HEIGHT"
  shows "clear_lines g =
         (let n = length (filter full_row (board g))
          in if n = 0 then g
             else g\<lparr>board := replicate n empty_row @ filter (\<lambda>row. \<not> full_row row) (board g),
                    lines := lines g + int n,
                    score := score g + int n * 100 * level g,
                    level := 1 + (lines g + int n) div 10,
                    drop_delay := max 0.05 (1 - real_of_int (1 + (lines g + int n) div 10 - 1) * 0.05)\<rparr>)"
proof -
  let ?n = "length (filter full_row (board g))"
  let ?nb = "filter (\<lambda>row. \<not> full_row row) (board g)"
  have cleared: "BOARD_HEIGHT - int (length ?nb) = int ?n"
    using assms length_filter_full [of "board g"] by simp
  have unfold: "clear_lines g =
     (let cleared = BOARD_HEIGHT - int (length ?nb)
      in if cleared \<noteq> 0 then
           g\<lparr>board := replicate (nat cleared) empty_row @ ?nb,
             lines := lines g + cleared,
             score := score g + (cleared * 100) * level g,
             level := 1 + (lines g + cleared) div 10,
             drop_delay := max 0.05 (1 - real_of_int (1 + (lines g + cleared) div 10 - 1) * 0.05)\<rparr>
         else g)"
    by (simp add: clear_lines_def not_full_row funpow_Cons empty_row_def Let_def)
  show ?thesis
    unfolding unfold cleared by (simp add: Let_def)
qed




section \<open>The invariant of the reachable states\<close>

lemma store2_wf_board:
  assumes "store2 b r c v = Inr b'" and "wf_board b"
  shows "wf_board b'"
proof -
  from assms(1) have r: "r < length b" and b': "b' = b[r := (b ! r)[c := v]]"
    by (auto simp: store2_def subscript_def split: if_splits)
  have "length ((b ! r)[c := v]) = nat BOARD_WIDTH"
    using assms(2) r by (simp add: wf_board_def rectangular_def list_all_length)
  then show ?thesis
    using assms(2) r unfolding b' wf_board_def rectangular_def list_all_length
    by (auto simp: nth_list_update)
qed

lemma lock_cells_wf_board:
  "lock_cells p cs b = Inr b' \<Longrightarrow> wf_board b \<Longrightarrow> wf_board b'"
proof (induction cs arbitrary: b)
  case Nil
  then show ?case by simp
next
  case (Cons rc cs)
  obtain r c where rc: "rc = (r, c)"
    by (cases rc)
  from Cons.prems(1) consider
      "lock_cells p cs b = Inr b'"
    | b1 where "store2 b (nat (py p + int r)) (nat (px p + int c)) (Some (shape p)) = Inr b1"
        and "lock_cells p cs b1 = Inr b'"
    unfolding rc by (auto simp: Let_def split: sum.splits if_splits)
  then show ?case
  proof cases
    case 1
    then show ?thesis using Cons.IH Cons.prems(2) by blast
  next
    case 2
    then show ?thesis using Cons.IH store2_wf_board Cons.prems(2) by blast
  qed
qed

lemma clear_lines_level_ok: "level_ok g \<Longrightarrow> level_ok (clear_lines g)"
  by (simp add: clear_lines_def level_ok_def Let_def)

lemma clear_lines_wf_board:
  assumes "wf_board (board g)"
  shows "wf_board (board (clear_lines g))"
proof -
  have len: "int (length (board g)) = BOARD_HEIGHT"
    using assms by (simp add: wf_board_def)
  have "list_all (\<lambda>row. length row = nat BOARD_WIDTH) (filter (\<lambda>row. \<not> full_row row) (board g))"
    using assms by (auto simp: wf_board_def rectangular_def list_all_iff)
  then show ?thesis
    using assms len length_filter_full [of "board g"]
    unfolding clear_lines_eq [OF len] Let_def
    by (auto simp: wf_board_def rectangular_def empty_row_def list_all_iff)
qed

lemma clear_lines_pieces:
  "current (clear_lines g) = current g" "nxt (clear_lines g) = nxt g"
  "bag (clear_lines g) = bag g" "game_over (clear_lines g) = game_over g"
  "paused (clear_lines g) = paused g" "last_drop (clear_lines g) = last_drop g"
  by (simp_all add: clear_lines_def Let_def)

lemma next_piece_Inr:
  "next_piece shuffle bg = Inr (n, bg') \<Longrightarrow> \<exists>s. n = Piece s"
  by (auto simp: next_piece_def pop_def Let_def split: if_splits)

lemma level_ok_cong:
  "level g' = level g \<Longrightarrow> lines g' = lines g \<Longrightarrow> drop_delay g' = drop_delay g \<Longrightarrow>
   level_ok g' = level_ok g"
  by (simp add: level_ok_def)

lemma lock_piece_good:
  assumes "lock_piece shuffle p g = Inr g'" and "good g"
  shows "good g'"
proof -
  from assms(1) obtain b n bg ok where
    b: "lock_cells p (range2 (ph p) (pw p)) (board g) = Inr b" and
    n: "next_piece shuffle (bag (clear_lines (g\<lparr>board := b\<rparr>))) = Inr (n, bg)" and
    g': "g' = (if \<not> ok then (clear_lines (g\<lparr>board := b\<rparr>))\<lparr>current := nxt (clear_lines (g\<lparr>board := b\<rparr>)), bag := bg, nxt := n, game_over := True\<rparr>
           else (clear_lines (g\<lparr>board := b\<rparr>))\<lparr>current := nxt (clear_lines (g\<lparr>board := b\<rparr>)), bag := bg, nxt := n\<rparr>)"
    by (auto simp: lock_piece_def Let_def split: sum.splits prod.splits)
  let ?g1 = "clear_lines (g\<lparr>board := b\<rparr>)"
  have "wf_board b"
    using b assms(2) lock_cells_wf_board by (auto simp: good_def)
  then have wb: "wf_board (board ?g1)"
    using clear_lines_wf_board [of "g\<lparr>board := b\<rparr>"] by simp
  have lv: "level_ok ?g1"
    using assms(2) by (intro clear_lines_level_ok) (simp add: good_def level_ok_def)
  have wn: "wf_piece n"
    using next_piece_Inr [OF n] wf_piece_Piece by auto
  have wc: "wf_piece (nxt ?g1)"
    using assms(2) by (simp add: clear_lines_pieces good_def)
  show ?thesis
    using wb lv wn wc unfolding g' good_def level_ok_def by (cases ok) simp_all
qed

lemma wf_piece_moved:
  "wf_piece (p\<lparr>px := v\<rparr>) = wf_piece p" "wf_piece (p\<lparr>py := v\<rparr>) = wf_piece p"
  by (simp_all add: wf_piece_def)

lemma good_drop_one: "good g \<Longrightarrow> good (drop_one g)"
  by (simp add: good_def drop_one_def level_ok_def wf_piece_moved)

lemma good_funpow_drop_one: "good g \<Longrightarrow> good ((drop_one ^^ k) g)"
  by (induction k) (simp_all add: good_drop_one)

lemma hard_drop_loop_funpow:
  assumes "hard_drop_loop g = Some (Inr g')"
  shows "\<exists>k. g' = (drop_one ^^ k) g"
proof -
  have "\<forall>g'. r = Inr g' \<longrightarrow> (\<exists>k. g' = (drop_one ^^ k) g)" if "hard_drop_loop g = Some r" for r
  proof (rule hard_drop_loop.raw_induct [OF _ that])
    fix f :: "game \<Rightarrow> (error + game) option" and g r
    assume IH: "\<And>x y. f x = Some y \<Longrightarrow> \<forall>g'. y = Inr g' \<longrightarrow> (\<exists>k. g' = (drop_one ^^ k) x)"
      and body: "(case valid g (current g) None (Some (py (current g) + 1)) of
                    Inl e \<Rightarrow> Some (Inl e)
                  | Inr ok \<Rightarrow> if ok then f (drop_one g) else Some (Inr g)) = Some r"
    show "\<forall>g'. r = Inr g' \<longrightarrow> (\<exists>k. g' = (drop_one ^^ k) g)"
    proof (cases "valid g (current g) None (Some (py (current g) + 1))")
      case (Inl e)
      then have "r = Inl e" using body by simp
      then show ?thesis by simp
    next
      case (Inr ok)
      show ?thesis
      proof (cases ok)
        case True
        then have "f (drop_one g) = Some r"
          using body Inr by simp
        from IH [OF this] show ?thesis
        proof (intro allI impI)
          fix g'
          assume "r = Inr g'"
          with \<open>\<forall>g'. r = Inr g' \<longrightarrow> (\<exists>k. g' = (drop_one ^^ k) (drop_one g))\<close>
          obtain k where "g' = (drop_one ^^ k) (drop_one g)"
            by blast
          then have "g' = (drop_one ^^ Suc k) g"
            by (simp add: funpow_swap1)
          then show "\<exists>k. g' = (drop_one ^^ k) g" ..
        qed
      next
        case False
        then have "r = Inr g"
          using body Inr by simp
        then have "\<forall>g'. r = Inr g' \<longrightarrow> g' = (drop_one ^^ 0) g"
          by simp
        then show ?thesis by blast
      qed
    qed
  qed
  with assms show ?thesis by blast
qed

lemma good_px: "good g \<Longrightarrow> good (g\<lparr>current := (current g)\<lparr>px := v\<rparr>\<rparr>)"
  by (simp add: good_def level_ok_def wf_piece_moved)

lemma good_py: "good g \<Longrightarrow> good (g\<lparr>current := (current g)\<lparr>py := v\<rparr>\<rparr>)"
  by (simp add: good_def level_ok_def wf_piece_moved)

lemma Game_good:
  assumes "Game shuffle now = Inr g"
  shows "good g"
proof -
  from assms obtain cur bg1 nx bg2 where
    c: "next_piece shuffle [] = Inr (cur, bg1)" and n: "next_piece shuffle bg1 = Inr (nx, bg2)" and
    g: "g = \<lparr> board = replicate (nat BOARD_HEIGHT) (replicate (nat BOARD_WIDTH) None),
             score = 0, lines = 0, level = 1, drop_delay = 1.0, bag = bg2,
             current = cur, nxt = nx, game_over = False, paused = False, last_drop = now \<rparr>"
    by (auto simp: Game_def split: sum.splits prod.splits)
  have "wf_piece cur" "wf_piece nx"
    using next_piece_Inr [OF c] next_piece_Inr [OF n] wf_piece_Piece by auto
  then show ?thesis
    unfolding g by (simp add: good_def level_ok_def wf_board_def rectangular_def list_all_iff BOARD_HEIGHT_def)
qed

lemma move_current_good:
  assumes "move_current dx g = Inr g'" and "good g"
  shows "good g'"
proof -
  from assms(1) have "g' = g \<or> g' = g\<lparr>current := (current g)\<lparr>px := px (current g) + dx\<rparr>\<rparr>"
    by (auto simp: move_current_def split: sum.splits if_splits)
  then show ?thesis
    using assms(2) good_px [OF assms(2)] by auto
qed

lemma try_kicks_Some:
  "try_kicks g ks = Inr (Some g') \<Longrightarrow>
   \<exists>dx. g' = g\<lparr>current := (current g)\<lparr>px := px (current g) + dx\<rparr>\<rparr>"
  by (induction ks) (auto split: sum.splits if_splits)

lemma rotate_current_good:
  assumes "rotate_current ccw g = Inr g'" and "good g"
  shows "good g'"
proof -
  have wc: "wf_piece (current g)"
    using assms(2) by (simp add: good_def)
  define p where "p = (if ccw then (current g)\<lparr>matrix := rev (zip_star (matrix (current g))), ph := pw (current g), pw := ph (current g)\<rparr>
     else (current g)\<lparr>matrix := zip_star (rev (matrix (current g))), ph := pw (current g), pw := ph (current g)\<rparr>)"
  have rot: "(if ccw then rotate_ccw (current g) else rotate_cw (current g)) = Inr p"
    using rotate_wf [OF wc] rotate_ccw_wf [OF wc] by (simp add: p_def)
  have wp: "wf_piece p"
    using wf_piece_rotate [OF wc] wf_piece_rotate_ccw [OF wc] by (simp add: p_def)
  have g1: "good (g\<lparr>current := p\<rparr>)"
    using assms(2) wp by (simp add: good_def level_ok_def)
  show ?thesis
  proof (cases "try_kicks (g\<lparr>current := p\<rparr>) [0, -1, 1, -2, 2]")
    case (Inl e)
    then show ?thesis
      using assms(1) rot by (simp add: rotate_current_def Let_def)
  next
    case (Inr res)
    show ?thesis
    proof (cases res)
      case None
      then have "g' = g\<lparr>current := p\<lparr>matrix := matrix (current g), pw := pw (current g), ph := ph (current g)\<rparr>\<rparr>"
        using assms(1) rot Inr by (simp add: rotate_current_def Let_def)
      then show ?thesis
        using assms(2) by (auto simp: good_def level_ok_def wf_piece_def)
    next
      case (Some g2)
      then have "g' = g2"
        using assms(1) rot Inr by (simp add: rotate_current_def Let_def)
      moreover obtain dx where "g2 = (g\<lparr>current := p\<rparr>)\<lparr>current := (current (g\<lparr>current := p\<rparr>))\<lparr>px := px (current (g\<lparr>current := p\<rparr>)) + dx\<rparr>\<rparr>"
        using try_kicks_Some Inr Some by blast
      ultimately show ?thesis
        using good_px [OF g1] by simp
    qed
  qed
qed

lemma soft_drop_good:
  assumes "soft_drop shuffle g = Inr g'" and "good g"
  shows "good g'"
proof (cases "valid g (current g) None (Some (py (current g) + 1))")
  case (Inl e)
  then show ?thesis
    using assms(1) by (simp add: soft_drop_def)
next
  case (Inr ok)
  show ?thesis
  proof (cases ok)
    case True
    then have "g' = (g\<lparr>current := (current g)\<lparr>py := py (current g) + 1\<rparr>\<rparr>)\<lparr>score := score g + 1\<rparr>"
      using assms(1) Inr by (simp add: soft_drop_def)
    moreover have "good ((g\<lparr>current := (current g)\<lparr>py := py (current g) + 1\<rparr>\<rparr>)\<lparr>score := score g + 1\<rparr>)"
      using good_py [OF assms(2), of "py (current g) + 1"] by (simp add: good_def level_ok_def)
    ultimately show ?thesis by simp
  next
    case False
    then have "lock_piece shuffle (current g) g = Inr g'"
      using assms(1) Inr by (simp add: soft_drop_def)
    then show ?thesis
      using assms(2) by (rule lock_piece_good)
  qed
qed

lemma good_last_drop: "good g \<Longrightarrow> good (g\<lparr>last_drop := v\<rparr>)"
  by (simp add: good_def level_ok_def)

lemma step_good:
  assumes "step shuffle now g = Inr g'" and "good g"
  shows "good g'"
proof -
  from assms(1) consider "g' = g"
    | "g' = g\<lparr>current := (current g)\<lparr>py := py (current g) + 1\<rparr>, last_drop := now\<rparr>"
    | g1 where "lock_piece shuffle (current g) g = Inr g1" and "g' = g1\<lparr>last_drop := now\<rparr>"
    by (auto simp: step_def and_then_def split: sum.splits if_splits)
  then show ?thesis
  proof cases
    case 1
    then show ?thesis using assms(2) by simp
  next
    case 2
    then show ?thesis
      using good_last_drop [OF good_py [OF assms(2)], of now "py (current g) + 1"] by simp
  next
    case 3
    then show ?thesis
      using good_last_drop [OF lock_piece_good [OF _ assms(2)]] by simp
  qed
qed

lemma hard_drop_good:
  assumes "hard_drop shuffle g = Some (Inr g')" and "good g"
  shows "good g'"
proof -
  from assms(1) obtain g1 where l: "hard_drop_loop g = Some (Inr g1)"
    and g': "lock_piece shuffle (current g1) g1 = Inr g'"
    by (auto simp: hard_drop_def split: option.splits sum.splits)
  from hard_drop_loop_funpow [OF l] good_funpow_drop_one [OF assms(2)] have "good g1"
    by auto
  with g' show ?thesis
    by (rule lock_piece_good)
qed

lemma toggle_pause_good: "good g \<Longrightarrow> good (toggle_pause g)"
  by (simp add: good_def level_ok_def toggle_pause_def)

lemma reachable_good: "reachable g \<Longrightarrow> good g"
proof (induction rule: reachable.induct)
  case (reach_init shuffle now g)
  then show ?case by (simp add: Game_good)
next
  case (reach_move g dx g')
  then show ?case using move_current_good by blast
next
  case (reach_rotate g ccw g')
  then show ?case using rotate_current_good by blast
next
  case (reach_soft g shuffle g')
  then show ?case using soft_drop_good by blast
next
  case (reach_hard g shuffle g')
  then show ?case using hard_drop_good by blast
next
  case (reach_step g shuffle now g')
  then show ?case using step_good by blast
next
  case (reach_pause g)
  then show ?case by (simp add: toggle_pause_good)
qed

lemma reachable_start_state: "reachable start_state"
proof (rule reach_init)
  show "is_shuffle (\<lambda>xs. xs)"
    by (simp add: is_shuffle_def)
  show "Game (\<lambda>xs. xs) 0 = Inr start_state"
    by (simp add: Game_def next_piece_def pop_def TETROMINOES_keys_def start_state_def
        BOARD_HEIGHT_def BOARD_WIDTH_def)
qed

lemma shape_in_keys: "s \<in> set TETROMINOES_keys"
  by (cases s) (simp_all add: TETROMINOES_keys_def)

text \<open>
  Claim C6. In every reachable state the level is \<open>1 + lines div 10\<close> and the drop
  interval is \<open>max 0.05 (1.0 - (level - 1) * 0.05)\<close>. In particular, with 10 lines the
  level is 2 and the interval 0.95; with 95 lines the level is 10 and the interval 0.55;
  and whenever \<open>1.0 - (level - 1) * 0.05\<close> is negative the interval is 0.05. The
  interval is computed in exact arithmetic.
\<close>

theorem reachable_level_interval:
  assumes "reachable g"
  shows "level g = 1 + lines g div 10 \<and>
         drop_delay g = max 0.05 (1.0 - real_of_int (level g - 1) * 0.05) \<and>
         (lines g = 10 \<longrightarrow> level g = 2 \<and> drop_delay g = 0.95) \<and>
         (lines g = 95 \<longrightarrow> level g = 10 \<and> drop_delay g = 0.55) \<and>
         (1.0 - real_of_int (level g - 1) * 0.05 < 0 \<longrightarrow> drop_delay g = 0.05)"
proof -
  have ok: "level_ok g"
    using reachable_good [OF assms] by (simp add: good_def)
  then have lv: "level g = 1 + lines g div 10"
    and dd: "drop_delay g = max 0.05 (1.0 - real_of_int (level g - 1) * 0.05)"
    by (simp_all add: level_ok_def)
  have "level g = 2 \<and> drop_delay g = 0.95" if "lines g = 10"
    using that lv dd by simp
  moreover have "level g = 10 \<and> drop_delay g = 0.55" if "lines g = 95"
    using that lv dd by simp
  moreover have "drop_delay g = 0.05" if "1.0 - real_of_int (level g - 1) * 0.05 < 0"
    using that dd by (simp add: max_def)
  ultimately show ?thesis
    using lv dd by blast
qed

theorem reachable_level_interval_witness:
  "reachable start_state \<and> lines start_state = 0 \<and> level start_state = 1 \<and>
   drop_delay start_state = 1"
proof -
  have "lines start_state = 0"
    by (simp add: start_state_def)
  then show ?thesis
    using reachable_level_interval [OF reachable_start_state] reachable_start_state by simp
qed

text \<open>
  Claim C10. In every reachable state, that is after \<^verbatim>\<open>Game.__init__\<close> and after
  every operation, the board has \<^verbatim>\<open>BOARD_HEIGHT\<close> rows of \<^verbatim>\<open>BOARD_WIDTH\<close> cells
  each, and every cell is the empty sentinel or one of the seven keys of the catalogue.
  From such a state \<open>clear_lines\<close> and every call of \<open>lock_piece\<close> that returns leave a
  board of the same dimensions.
\<close>

theorem reachable_board_dimensions:
  assumes "reachable g"
  shows "int (length (board g)) = BOARD_HEIGHT \<and>
         list_all (\<lambda>row. int (length row) = BOARD_WIDTH \<and>
                          list_all (\<lambda>cl. cl = None \<or> cl \<in> Some ` set TETROMINOES_keys) row)
                  (board g) \<and>
         wf_board (board (clear_lines g)) \<and>
         (\<forall>shuffle p g'. lock_piece shuffle p g = Inr g' \<longrightarrow> wf_board (board g'))"
proof -
  have gd: "good g"
    using assms by (rule reachable_good)
  then have wb: "wf_board (board g)"
    by (simp add: good_def)
  have "wf_board (board g')" if "lock_piece shuffle p g = Inr g'" for shuffle p g'
    using lock_piece_good [OF that gd] by (simp add: good_def)
  moreover have "list_all (\<lambda>cl. cl = None \<or> cl \<in> Some ` set TETROMINOES_keys) row" for row
    by (simp add: list_all_iff shape_in_keys image_iff) (metis not_Some_eq shape_in_keys)
  moreover have "list_all (\<lambda>row. int (length row) = BOARD_WIDTH) (board g)"
    using wb by (auto simp: wf_board_def rectangular_def list_all_iff BOARD_WIDTH_def)
  ultimately show ?thesis
    using wb clear_lines_wf_board [OF wb] by (simp add: wf_board_def list_all_iff)
qed

theorem reachable_board_dimensions_witness:
  "reachable start_state \<and> length (board start_state) = 20 \<and>
   list_all (\<lambda>row. length row = 10) (board start_state) \<and>
   wf_board (board (clear_lines start_state))"
proof -
  have "list_all (\<lambda>row. length row = 10) (board start_state)"
    using reachable_board_dimensions [OF reachable_start_state]
    by (simp add: BOARD_WIDTH_def list_all_iff)
  then show ?thesis
    using reachable_board_dimensions [OF reachable_start_state] reachable_start_state
    by (simp add: BOARD_HEIGHT_def)
qed

section \<open>The bag of shapes\<close>

lemma next_piece_snoc: "next_piece shuffle (xs @ [x]) = Inr (Piece x, xs)"
  by (simp add: next_piece_def pop_def)

lemma draws_whole_bag: "draws shuffle (length bg) bg = Inr (map Piece (rev bg), [])"
  by (induction bg rule: rev_induct) (simp_all add: next_piece_snoc)

lemma shape_Piece: "shape (Piece s) = s"
  by (simp add: Piece_def Let_def)

lemma draws_empty_bag:
  assumes "is_shuffle shuffle"
  shows "draws shuffle 7 [] = Inr (map Piece (rev (shuffle TETROMINOES_keys)), [])"
proof -
  let ?perm = "shuffle TETROMINOES_keys"
  have "size (mset ?perm) = size (mset TETROMINOES_keys)"
    using assms by (simp add: is_shuffle_def)
  then have len: "length ?perm = 7"
    by (simp add: TETROMINOES_keys_def)
  then have "?perm \<noteq> []"
    by auto
  then have "next_piece shuffle [] = next_piece shuffle ?perm"
    by (simp add: next_piece_def)
  then have "draws shuffle (length ?perm) [] = draws shuffle (length ?perm) ?perm"
    unfolding len by (simp add: eval_nat_numeral)
  then show ?thesis
    using draws_whole_bag [of shuffle ?perm] len by simp
qed

text \<open>
  Claim C7. Whatever permutation of the keys the shuffle leaves, seven consecutive calls
  of \<open>next_piece\<close> that start on an empty bag raise nothing, return pieces whose
  shapes are that permutation read from its end, so that every one of the seven shapes
  is returned exactly once, and leave the bag empty again.
\<close>

theorem seven_draws_each_shape_once:
  assumes "is_shuffle shuffle"
  shows "\<exists>ps. draws shuffle 7 [] = Inr (ps, []) \<and>
              map shape ps = rev (shuffle TETROMINOES_keys) \<and>
              (\<forall>s. count_list (map shape ps) s = 1)"
proof -
  let ?perm = "shuffle TETROMINOES_keys"
  let ?ps = "map Piece (rev ?perm)"
  have sh: "map shape ?ps = rev ?perm"
    by (simp add: comp_def shape_Piece)
  have one: "count_list (rev ?perm) s = 1" for s
  proof -
    have "count_list (rev ?perm) s = count (mset (rev ?perm)) s"
      by (simp only: count_mset)
    also have "\<dots> = count (mset ?perm) s"
      by (simp only: mset_rev)
    also have "\<dots> = count (mset TETROMINOES_keys) s"
      using assms by (simp only: is_shuffle_def)
    also have "\<dots> = 1"
      by (cases s) (simp_all add: TETROMINOES_keys_def)
    finally show ?thesis .
  qed
  have "draws shuffle 7 [] = Inr (?ps, []) \<and> map shape ?ps = rev ?perm \<and>
        (\<forall>s. count_list (map shape ?ps) s = 1)"
    using draws_empty_bag [OF assms] one by (simp only: sh simp_thms)
  then show ?thesis ..
qed

theorem seven_draws_each_shape_once_witness:
  "is_shuffle rev \<and>
   (\<exists>ps. draws rev 7 [] = Inr (ps, []) \<and> map shape ps = TETROMINOES_keys)"
proof -
  have sh: "is_shuffle rev"
    by (simp add: is_shuffle_def)
  show ?thesis
    using seven_draws_each_shape_once [OF sh] sh by auto
qed

section \<open>The operations while the game is paused\<close>

lemma nxt_funpow_drop_one: "nxt ((drop_one ^^ k) g) = nxt g"
  by (induction k) (simp_all add: drop_one_def)

lemma lock_piece_current:
  assumes "lock_piece shuffle p g = Inr g'"
  shows "current g' = nxt g"
proof -
  from assms obtain b n bg ok where
    g': "g' = (if \<not> ok then (clear_lines (g\<lparr>board := b\<rparr>))\<lparr>current := nxt (clear_lines (g\<lparr>board := b\<rparr>)), bag := bg, nxt := n, game_over := True\<rparr>
           else (clear_lines (g\<lparr>board := b\<rparr>))\<lparr>current := nxt (clear_lines (g\<lparr>board := b\<rparr>)), bag := bg, nxt := n\<rparr>)"
    by (auto simp: lock_piece_def Let_def split: sum.splits prod.splits)
  show ?thesis
    unfolding g' by (cases ok) (simp_all add: clear_lines_pieces)
qed

lemma hard_drop_current:
  assumes "hard_drop shuffle g = Some (Inr g')"
  shows "current g' = nxt g"
proof -
  from assms obtain g1 where l: "hard_drop_loop g = Some (Inr g1)"
    and g': "lock_piece shuffle (current g1) g1 = Inr g'"
    by (auto simp: hard_drop_def split: option.splits sum.splits)
  from hard_drop_loop_funpow [OF l] have "nxt g1 = nxt g"
    by (auto simp: nxt_funpow_drop_one)
  then show ?thesis
    using lock_piece_current [OF g'] by simp
qed

lemma paused_move:
  "move_current 1 paused_state = Inr (paused_state\<lparr>current := (current paused_state)\<lparr>px := 4\<rparr>\<rparr>)"
  by (simp add: move_current_def valid_def paused_state_def start_state_def Piece_def range2_def
      subscript2_def subscript_def BOARD_WIDTH_def BOARD_HEIGHT_def)

lemma paused_soft:
  "soft_drop (\<lambda>xs. xs) paused_state =
   Inr (paused_state\<lparr>current := (current paused_state)\<lparr>py := 1\<rparr>, score := 1\<rparr>)"
  by (simp add: soft_drop_def valid_def paused_state_def start_state_def Piece_def range2_def
      subscript2_def subscript_def BOARD_WIDTH_def BOARD_HEIGHT_def)

lemma paused_rotate:
  "rotate_current False paused_state =
   Inr (paused_state\<lparr>current := (current paused_state)\<lparr>matrix := [[0,0,1],[0,1,1],[0,1,0]]\<rparr>\<rparr>)"
  by (simp add: rotate_current_def rotate_cw_def set_matrix_def valid_def paused_state_def
      start_state_def Piece_def range2_def subscript2_def subscript_def BOARD_WIDTH_def
      BOARD_HEIGHT_def)

lemma paused_hard: "hard_drop (\<lambda>xs. xs) paused_state \<noteq> Some (Inr paused_state)"
proof
  assume "hard_drop (\<lambda>xs. xs) paused_state = Some (Inr paused_state)"
  then have "current paused_state = nxt paused_state"
    by (rule hard_drop_current)
  then show False
    by (simp add: paused_state_def start_state_def Piece_def)
qed

text \<open>
  Claim C2, evaluated on the paused start state. None of \<open>move_current\<close>,
  \<open>soft_drop\<close>, \<open>rotate_current\<close> and \<open>hard_drop\<close> reads the flag \<open>paused\<close>: the
  move shifts the piece from column 3 to column 4, the soft drop lowers it by one row and
  adds 1 to the score, the rotation replaces its matrix, and the hard drop does not
  return the state it was given.
\<close>

theorem paused_operations_change_state:
  "paused paused_state \<and> px (current paused_state) = 3 \<and>
   move_current 1 paused_state =
     Inr (paused_state\<lparr>current := (current paused_state)\<lparr>px := 4\<rparr>\<rparr>) \<and>
   soft_drop (\<lambda>xs. xs) paused_state =
     Inr (paused_state\<lparr>current := (current paused_state)\<lparr>py := 1\<rparr>, score := 1\<rparr>) \<and>
   rotate_current False paused_state =
     Inr (paused_state\<lparr>current := (current paused_state)\<lparr>matrix := [[0,0,1],[0,1,1],[0,1,0]]\<rparr>\<rparr>) \<and>
   hard_drop (\<lambda>xs. xs) paused_state \<noteq> Some (Inr paused_state)"
proof -
  have "paused paused_state" "px (current paused_state) = 3"
    by (simp_all add: paused_state_def start_state_def Piece_def BOARD_WIDTH_def)
  then show ?thesis
    using paused_move paused_soft paused_rotate paused_hard by simp
qed

section \<open>Rotation of the current piece\<close>

lemma valid_board_only: "board g' = board g \<Longrightarrow> valid g' p nx ny = valid g p nx ny"
  by (simp add: valid_def)

lemma valid_total:
  assumes "wf_board (board g)" and "wf_piece p"
  shows "valid g p nx ny = Inr True \<or> valid g p nx ny = Inr False"
  using valid_wf [OF assms, of nx ny] by auto

lemma try_kicks_find:
  assumes "wf_board (board g)" and "wf_piece (current g)"
  shows "try_kicks g ks =
         Inr (map_option (\<lambda>dx. g\<lparr>current := (current g)\<lparr>px := px (current g) + dx\<rparr>\<rparr>)
                (find (\<lambda>dx. valid g (current g) (Some (px (current g) + dx)) None = Inr True) ks))"
proof (induction ks)
  case Nil
  then show ?case by simp
next
  case (Cons dx ks)
  from valid_total [OF assms, of "Some (px (current g) + dx)" None] show ?case
  proof
    assume "valid g (current g) (Some (px (current g) + dx)) None = Inr True"
    then show ?thesis by simp
  next
    assume "valid g (current g) (Some (px (current g) + dx)) None = Inr False"
    then show ?thesis using Cons.IH by simp
  qed
qed

text \<open>
  Claim C4. On a board of the right dimensions and a current piece whose matrix has the
  dimensions the piece records, \<open>rotate_current\<close> raises nothing. With \<open>p\<close> the
  rotated piece (the rotated matrix, height and width swapped, the position kept), the
  result is decided by the first offset \<open>dx\<close> in the order 0, -1, 1, -2, 2 for which
  \<open>p\<close> is valid at \<open>x + dx\<close>: the current piece becomes \<open>p\<close> moved to \<open>x + dx\<close>.
  When no offset is valid the state is returned as it was, with the matrix, the width,
  the height and the position of before the call. The row \<open>y\<close> of the current piece
  never changes.
\<close>

theorem rotate_current_kicks:
  assumes "wf_board (board g)" and "wf_piece (current g)"
  shows "\<exists>p. (if ccw then rotate_ccw (current g) else rotate_cw (current g)) = Inr p \<and>
           matrix p = (if ccw then rev (zip_star (matrix (current g)))
                       else zip_star (rev (matrix (current g)))) \<and>
           ph p = pw (current g) \<and> pw p = ph (current g) \<and>
           px p = px (current g) \<and> py p = py (current g) \<and>
           rotate_current ccw g =
             Inr (case find (\<lambda>dx. valid g p (Some (px p + dx)) None = Inr True) [0, -1, 1, -2, 2] of
                    Some dx \<Rightarrow> g\<lparr>current := p\<lparr>px := px p + dx\<rparr>\<rparr>
                  | None \<Rightarrow> g) \<and>
           (\<forall>g'. rotate_current ccw g = Inr g' \<longrightarrow> py (current g') = py (current g))"
proof -
  let ?c = "current g"
  define p where "p = (if ccw then ?c\<lparr>matrix := rev (zip_star (matrix ?c)), ph := pw ?c, pw := ph ?c\<rparr>
     else ?c\<lparr>matrix := zip_star (rev (matrix ?c)), ph := pw ?c, pw := ph ?c\<rparr>)"
  have rot: "(if ccw then rotate_ccw ?c else rotate_cw ?c) = Inr p"
    using rotate_wf [OF assms(2)] rotate_ccw_wf [OF assms(2)] by (simp add: p_def)
  have wp: "wf_piece p"
    using wf_piece_rotate [OF assms(2)] wf_piece_rotate_ccw [OF assms(2)] by (simp add: p_def)
  have fields: "matrix p = (if ccw then rev (zip_star (matrix ?c)) else zip_star (rev (matrix ?c)))"
    "ph p = pw ?c" "pw p = ph ?c" "px p = px ?c" "py p = py ?c"
    by (simp_all add: p_def)
  let ?g1 = "g\<lparr>current := p\<rparr>"
  let ?ok = "\<lambda>dx. valid g p (Some (px p + dx)) None = Inr True"
  have same: "(\<lambda>dx. valid ?g1 (current ?g1) (Some (px (current ?g1) + dx)) None = Inr True) = ?ok"
    by (simp add: valid_board_only [of ?g1 g])
  have kicks: "try_kicks ?g1 [0, -1, 1, -2, 2] =
        Inr (map_option (\<lambda>dx. ?g1\<lparr>current := (current ?g1)\<lparr>px := px (current ?g1) + dx\<rparr>\<rparr>)
               (find ?ok [0, -1, 1, -2, 2]))"
    using try_kicks_find [of ?g1 "[0, -1, 1, -2, 2]"] assms(1) wp unfolding same by simp
  have restore: "?g1\<lparr>current := (current ?g1)\<lparr>matrix := matrix ?c, pw := pw ?c, ph := ph ?c\<rparr>\<rparr> = g"
    by (simp add: p_def)
  have res: "rotate_current ccw g =
             Inr (case find ?ok [0, -1, 1, -2, 2] of
                    Some dx \<Rightarrow> g\<lparr>current := p\<lparr>px := px p + dx\<rparr>\<rparr>
                  | None \<Rightarrow> g)"
  proof (cases "find ?ok [0, -1, 1, -2, 2]")
    case None
    then have "try_kicks ?g1 [0, -1, 1, -2, 2] = Inr None"
      using kicks by simp
    then have "rotate_current ccw g =
        Inr (?g1\<lparr>current := (current ?g1)\<lparr>matrix := matrix ?c, pw := pw ?c, ph := ph ?c\<rparr>\<rparr>)"
      using rot by (simp add: rotate_current_def Let_def)
    then show ?thesis
      unfolding restore using None by simp
  next
    case (Some dx)
    then have "try_kicks ?g1 [0, -1, 1, -2, 2] = Inr (Some (g\<lparr>current := p\<lparr>px := px p + dx\<rparr>\<rparr>))"
      using kicks by simp
    then have "rotate_current ccw g = Inr (g\<lparr>current := p\<lparr>px := px p + dx\<rparr>\<rparr>)"
      using rot by (simp add: rotate_current_def Let_def)
    then show ?thesis
      using Some by simp
  qed
  have "py (current g') = py ?c" if "rotate_current ccw g = Inr g'" for g'
    using that res fields(5) by (cases "find ?ok [0, -1, 1, -2, 2]") auto
  then show ?thesis
    using rot fields res by blast
qed

theorem rotate_current_kicks_witness:
  "wf_board (board kick_state) \<and> wf_piece (current kick_state) \<and>
   (\<exists>p. rotate_cw (current kick_state) = Inr p \<and>
        matrix p = [[0,0,0,0], [0,0,0,0], [1,1,1,1], [0,0,0,0]] \<and>
        find (\<lambda>dx. valid kick_state p (Some (px p + dx)) None = Inr True) [0, -1, 1, -2, 2] = Some 2 \<and>
        rotate_current False kick_state = Inr (kick_state\<lparr>current := p\<lparr>px := 0\<rparr>\<rparr>))"
proof -
  have wb: "wf_board (board kick_state)"
    using wf_board_start_state by (simp add: kick_state_def)
  have wp: "wf_piece (current kick_state)"
    by (simp add: kick_state_def wf_piece_def rectangular_def)
  from rotate_current_kicks [OF wb wp, of False] obtain p where
    rot: "rotate_cw (current kick_state) = Inr p" and
    m: "matrix p = zip_star (rev (matrix (current kick_state)))" and
    dims: "ph p = 4" "pw p = 4" "px p = -2" "py p = 0" and
    res: "rotate_current False kick_state =
          Inr (case find (\<lambda>dx. valid kick_state p (Some (px p + dx)) None = Inr True) [0, -1, 1, -2, 2] of
                 Some dx \<Rightarrow> kick_state\<lparr>current := p\<lparr>px := px p + dx\<rparr>\<rparr>
               | None \<Rightarrow> kick_state)"
    by (auto simp: kick_state_def)
  have m': "matrix p = [[0,0,0,0], [0,0,0,0], [1,1,1,1], [0,0,0,0]]"
    unfolding m by (simp add: kick_state_def)
  have bd: "board kick_state = replicate 20 (replicate 10 None)"
    by (simp add: kick_state_def start_state_def)
  have v: "valid kick_state p (Some dx) None =
           valid_cells (replicate 20 (replicate 10 None)) [[0,0,0,0], [0,0,0,0], [1,1,1,1], [0,0,0,0]]
             dx 0 (range2 4 4)" for dx
    by (simp add: valid_def m' dims bd)
  have r44: "range2 4 4 = [(0,0), (0,1), (0,2), (0,3), (1,0), (1,1), (1,2), (1,3),
                           (2,0), (2,1), (2,2), (2,3), (3,0), (3,1), (3,2), (3,3)]"
    by (simp add: range2_def upt_rec)
  have f: "find (\<lambda>dx. valid kick_state p (Some (px p + dx)) None = Inr True) [0, -1, 1, -2, 2] = Some 2"
    unfolding v dims r44
    by (simp add: subscript2_def subscript_def BOARD_WIDTH_def BOARD_HEIGHT_def)
  have res': "rotate_current False kick_state = Inr (kick_state\<lparr>current := p\<lparr>px := 0\<rparr>\<rparr>)"
    using res unfolding f by (simp add: dims)
  show ?thesis
    using wb wp rot m' f res' by blast
qed

section \<open>Locking a piece\<close>








end
